theory Spec2Isabelle
  imports Main
begin
section \<open>Syntax tree, symbol table and diagnostics\<close>

text \<open>
  The analyzer works on the syntax tree of \<^verbatim>\<open>go/ast\<close> and on the symbol table of
  \<^verbatim>\<open>go/types\<close>. Only the node kinds that the analyzer tells apart get a constructor of
  their own; every other kind of node is an \<open>OtherNode\<close> with its position and its
  children in the order in which \<^verbatim>\<open>ast.Walk\<close> visits them.
\<close>

type_synonym pos = int

datatype ident = Id (identPos: pos) (identName: string)

datatype node =
    Ident ident
  | SelectorExpr node ident
  | CallExpr node "node list"
  | FuncLit node node
  | BlockStmt pos "node list"
  | AssignStmt node "node list" "node list"
  | ForStmt pos "node option" "node option" "node option" node
  | RangeStmt pos "node option" "node option" node node
  | OtherNode pos "node list"

text \<open>
  \<open>SelectorExpr x sel\<close> is \<^verbatim>\<open>x.sel\<close>; \<open>CallExpr fn args\<close> is \<^verbatim>\<open>fn(args...)\<close>;
  \<open>FuncLit ty body\<close> is a function literal with its signature and its block;
  \<open>AssignStmt l ls rs\<close> is an assignment or short variable declaration whose
  left-hand sides are \<open>l # ls\<close> (the parser never builds one without a left-hand side);
  \<open>ForStmt p init cond post body\<close> and \<open>RangeStmt p key value x body\<close> are the two loops,
  with the clauses that may be absent as options.
\<close>

type_synonym callExpr = "node \<times> node list"
type_synonym funcLit = "node \<times> node"

text \<open>\<^verbatim>\<open>Node.Pos()\<close>: the position of the first character of the node.\<close>

primrec pos :: "node \<Rightarrow> pos" where
  "pos (Ident i) = identPos i"
| "pos (SelectorExpr x sel) = pos x"
| "pos (CallExpr fn args) = pos fn"
| "pos (FuncLit ty body) = pos ty"
| "pos (BlockStmt p ss) = p"
| "pos (AssignStmt l ls rs) = pos l"
| "pos (ForStmt p init cond post body) = p"
| "pos (RangeStmt p key val x body) = p"
| "pos (OtherNode p cs) = p"

text \<open>The children of a node, in the order of \<^verbatim>\<open>ast.Walk\<close>; absent clauses are skipped.\<close>

definition present :: "node option \<Rightarrow> node list" where
  "present e = (case e of None \<Rightarrow> [] | Some n \<Rightarrow> [n])"

primrec children :: "node \<Rightarrow> node list" where
  "children (Ident i) = []"
| "children (SelectorExpr x sel) = [x, Ident sel]"
| "children (CallExpr fn args) = fn # args"
| "children (FuncLit ty body) = [ty, body]"
| "children (BlockStmt p ss) = ss"
| "children (AssignStmt l ls rs) = l # ls @ rs"
| "children (ForStmt p init cond post body) = present init @ present cond @ present post @ [body]"
| "children (RangeStmt p key val x body) = present key @ present val @ [x, body]"
| "children (OtherNode p cs) = cs"

text \<open>
  A \<^verbatim>\<open>types.Object\<close> is compared by identity; it is modelled as an opaque handle.
  The pass gives the three lookups the analyzer uses: the object an identifier
  defines or uses (\<open>None\<close> is Go's \<^verbatim>\<open>nil\<close>), the printed type of an object
  (\<open>None\<close> when \<^verbatim>\<open>Type()\<close> is \<^verbatim>\<open>nil\<close>) and the import path of its package
  (\<open>None\<close> when \<^verbatim>\<open>Pkg()\<close> is \<^verbatim>\<open>nil\<close>).
\<close>

type_synonym object = nat

record pass =
  objects :: "ident \<Rightarrow> object option"
  typeString :: "object \<Rightarrow> string option"
  pkgPath :: "object \<Rightarrow> string option"

text \<open>\<^verbatim>\<open>TypesInfo.ObjectOf\<close> is a map lookup: a \<^verbatim>\<open>nil\<close> identifier gives \<^verbatim>\<open>nil\<close>.\<close>

definition objectOf :: "pass \<Rightarrow> ident option \<Rightarrow> object option" where
  "objectOf p i = (case i of None \<Rightarrow> None | Some x \<Rightarrow> objects p x)"

datatype diagnostic = Diagnostic (diagPos: pos) (diagMessage: string)

text \<open>Run-time panics are values; a computation either returns or panics.\<close>

datatype fault = NilDereference | IndexOutOfRange nat nat | PanicValue string

datatype 'a outcome = Returned 'a | Panicked fault

text \<open>A length in decimal, as \<^verbatim>\<open>%d\<close> prints it in the text of a run-time error.\<close>

fun showNat :: "nat \<Rightarrow> string" where
  "showNat n =
     (if n < 10 then [''0123456789'' ! n]
      else showNat (n div 10) @ [''0123456789'' ! (n mod 10)])"

text \<open>The text \<^verbatim>\<open>%s\<close> prints for a recovered panic value.\<close>

fun faultText :: "fault \<Rightarrow> string" where
  "faultText NilDereference = ''runtime error: invalid memory address or nil pointer dereference''"
| "faultText (IndexOutOfRange i n) =
     ''runtime error: index out of range ['' @ showNat i @ ''] with length '' @ showNat n"
| "faultText (PanicValue s) = s"

text \<open>\<^verbatim>\<open>fmt.Sprintf\<close>, for the only verb the analyzer uses.\<close>

fun sprintf :: "string \<Rightarrow> string list \<Rightarrow> string" where
  "sprintf [] args = []"
| "sprintf [c] args = [c]"
| "sprintf (c # d # rest) args =
     (if c = CHR ''%'' \<and> d = CHR ''s''
      then (case args of [] \<Rightarrow> ''%!s(MISSING)'' @ sprintf rest []
            | a # as \<Rightarrow> a @ sprintf rest as)
      else c # sprintf (d # rest) args)"

definition goTestFailureMessageFormat :: string where
  "goTestFailureMessageFormat = ''loop variable `%s` used directly inside parallel test closure. This could lead to tests not running as expected. Try aliasing `%s` to a variable outside the closure''"

definition ginkgoFailureMessageFormat :: string where
  "ginkgoFailureMessageFormat = ''loop variable `%s` used directly inside ginkgo It closure. This could lead to tests not running as expected. Try aliasing `%s` to a variable outside the closure''"

definition panicMessageFormat :: string where
  "panicMessageFormat = ''panic: %s'' @ [CHR 0x0A]"

text \<open>\<^verbatim>\<open>pass.Reportf\<close> appends to the diagnostics of the pass.\<close>

definition Reportf :: "pos \<Rightarrow> string \<Rightarrow> string list \<Rightarrow> diagnostic list \<Rightarrow> diagnostic list" where
  "Reportf p fmt args ds = ds @ [Diagnostic p (sprintf fmt args)]"

section \<open>Tree walks\<close>

text \<open>
  \<^verbatim>\<open>ast.Inspect(node, f)\<close> calls \<open>f\<close> on the node; when \<open>f\<close> returns true it walks the
  children in order and then calls \<open>f(nil)\<close>. When \<open>f\<close> returns false the children of that
  node are skipped, and the walk goes on with the node's later siblings. The callback
  may change the state it closes over, and may panic, which ends the walk.
\<close>

lemma children_measure:
  "sum_list (map (\<lambda>c. 4 * size c + 2) (children n)) < 4 * size n + 1"
proof -
  have L: "sum_list (map (\<lambda>c. 4 * size c + 2) cs) \<le> 4 * size_list size cs" for cs :: "node list"
    by (induction cs) auto
  have P: "sum_list (map (\<lambda>c. 4 * size c + 2) (present e)) \<le> 4 * size_option size e"
    for e :: "node option"
    by (cases e) (auto simp: present_def)
  show ?thesis
  proof (cases n)
    case (CallExpr fn args)
    then show ?thesis using L [of args] by simp
  next
    case (BlockStmt p ss)
    then show ?thesis using L [of ss] by simp
  next
    case (AssignStmt l ls rs)
    then show ?thesis using L [of ls] L [of rs] by simp
  next
    case (ForStmt p i c po b)
    then show ?thesis using P [of i] P [of c] P [of po] by simp
  next
    case (RangeStmt p k v x b)
    then show ?thesis using P [of k] P [of v] by simp
  next
    case (OtherNode p cs)
    then show ?thesis using L [of cs] by simp
  qed simp_all
qed

function inspect :: "(node option \<Rightarrow> 's \<Rightarrow> bool outcome \<times> 's) \<Rightarrow> node \<Rightarrow> 's \<Rightarrow> unit outcome \<times> 's"
  and walkList :: "(node option \<Rightarrow> 's \<Rightarrow> bool outcome \<times> 's) \<Rightarrow> node list \<Rightarrow> 's \<Rightarrow> unit outcome \<times> 's"
  where
  "inspect f n s =
     (case f (Some n) s of
        (Panicked e, s1) \<Rightarrow> (Panicked e, s1)
      | (Returned False, s1) \<Rightarrow> (Returned (), s1)
      | (Returned True, s1) \<Rightarrow>
          (case walkList f (children n) s1 of
             (Panicked e, s2) \<Rightarrow> (Panicked e, s2)
           | (Returned u, s2) \<Rightarrow>
               (case f None s2 of
                  (Panicked e, s3) \<Rightarrow> (Panicked e, s3)
                | (Returned b, s3) \<Rightarrow> (Returned (), s3))))"
| "walkList f [] s = (Returned (), s)"
| "walkList f (n # ns) s =
     (case inspect f n s of
        (Panicked e, s1) \<Rightarrow> (Panicked e, s1)
      | (Returned u, s1) \<Rightarrow> walkList f ns s1)"
  by pat_completeness auto
termination
proof (relation "measure (\<lambda>x. case x of
          Inl (f, n, s) \<Rightarrow> 4 * size n + 1
        | Inr (f, ns, s) \<Rightarrow> sum_list (map (\<lambda>c. 4 * size c + 2) ns))")
qed (use children_measure in auto)

text \<open>All nodes of a tree in depth-first order, a node before its children.\<close>

lemma children_size: "c \<in> set (children n) \<Longrightarrow> size c < size n"
proof -
  have L: "c \<in> set cs \<Longrightarrow> size c < Suc (size_list size cs)" for cs :: "node list"
    by (induction cs) auto
  assume "c \<in> set (children n)"
  then show ?thesis
    by (cases n) (auto simp: present_def dest: L split: option.splits)
qed

function preorder :: "node \<Rightarrow> node list" where
  "preorder n = n # concat (map preorder (children n))"
  by pat_completeness auto
termination
  by (relation "measure size") (auto simp: children_size)

section \<open>Loop variables\<close>

text \<open>\<^verbatim>\<open>looputils.go\<close>. An expression that may be \<^verbatim>\<open>nil\<close> is a \<open>node option\<close>.\<close>

definition getLoopBody :: "node \<Rightarrow> node option" where
  "getLoopBody loopNode =
     (case loopNode of
        ForStmt p init cond post body \<Rightarrow> Some body
      | RangeStmt p key val x body \<Rightarrow> Some body
      | _ \<Rightarrow> None)"

definition exprToIdent :: "node option \<Rightarrow> ident option" where
  "exprToIdent expr =
     (case expr of
        Some (Ident i) \<Rightarrow> Some i
      | Some (SelectorExpr x sel) \<Rightarrow> Some sel
      | _ \<Rightarrow> None)"

definition isNonNilExpr :: "node option \<Rightarrow> bool" where
  "isNonNilExpr expr = (expr \<noteq> None)"

text \<open>\<^verbatim>\<open>slices.Reject\<close> keeps the elements on which the predicate is false.\<close>

definition Reject :: "'a list \<Rightarrow> ('a \<Rightarrow> bool) \<Rightarrow> 'a list" where
  "Reject xs f = filter (\<lambda>x. \<not> f x) xs"

definition getLoopVarsIdentifiers :: "node \<Rightarrow> ident option list outcome" where
  "getLoopVarsIdentifiers loopNode =
     (case loopNode of
        ForStmt p init cond post body \<Rightarrow>
          (case init of
             Some (AssignStmt l ls rs) \<Rightarrow>
               Returned (Reject (map exprToIdent (map Some (l # ls))) (\<lambda>ident. ident = None))
           | _ \<Rightarrow> Returned [])
      | RangeStmt p key val x body \<Rightarrow>
          Returned (map exprToIdent (filter isNonNilExpr [key, val]))
      | _ \<Rightarrow> Panicked (PanicValue ''unexpected node type''))"

section \<open>The analyzer\<close>

definition getLoopNodeIdentifiersObjects :: "pass \<Rightarrow> node \<Rightarrow> object option list outcome" where
  "getLoopNodeIdentifiersObjects p loopNode =
     (case getLoopVarsIdentifiers loopNode of
        Panicked e \<Rightarrow> Panicked e
      | Returned idents \<Rightarrow> Returned (map (objectOf p) idents))"

text \<open>
  The callback of \<^verbatim>\<open>findTestingTCalls\<close>; its state is the variable
  \<^verbatim>\<open>matchingCallExpression\<close>. Calling \<^verbatim>\<open>Type()\<close> on a \<^verbatim>\<open>nil\<close> object, or
  \<^verbatim>\<open>String()\<close> on a \<^verbatim>\<open>nil\<close> type, panics.
\<close>

definition testingTVisit ::
  "pass \<Rightarrow> string \<Rightarrow> node option \<Rightarrow> callExpr option \<Rightarrow> bool outcome \<times> callExpr option" where
  "testingTVisit p methodName descendantNode matching =
     (case descendantNode of
        Some (CallExpr (SelectorExpr (Ident x) sel) args) \<Rightarrow>
          (case objectOf p (Some x) of
             None \<Rightarrow> (Panicked NilDereference, matching)
           | Some ob \<Rightarrow>
               (case typeString p ob of
                  None \<Rightarrow> (Panicked NilDereference, matching)
                | Some ty \<Rightarrow>
                    if ty = ''*testing.T'' \<and> identName sel = methodName
                    then (Returned False, Some (SelectorExpr (Ident x) sel, args))
                    else (Returned True, matching)))
      | _ \<Rightarrow> (Returned True, matching))"

definition findTestingTCalls :: "pass \<Rightarrow> node option \<Rightarrow> string \<Rightarrow> callExpr option outcome" where
  "findTestingTCalls p rootNode methodName =
     (case rootNode of
        None \<Rightarrow> Panicked NilDereference
      | Some root \<Rightarrow>
          (case inspect (testingTVisit p methodName) root None of
             (Panicked e, matching) \<Rightarrow> Panicked e
           | (Returned u, matching) \<Rightarrow> Returned matching))"

definition isGinkgoIdentifier :: "pass \<Rightarrow> ident \<Rightarrow> bool outcome" where
  "isGinkgoIdentifier p identifier =
     (case objectOf p (Some identifier) of
        None \<Rightarrow> Panicked NilDereference
      | Some ob \<Rightarrow>
          (case pkgPath p ob of
             None \<Rightarrow> Panicked NilDereference
           | Some packagePath \<Rightarrow>
               Returned (packagePath = ''github.com/onsi/ginkgo/v2''
                         \<or> packagePath = ''github.com/onsi/ginkgo'')))"

text \<open>The callee identifier that the callback of \<^verbatim>\<open>findGinkgoItCalls\<close> looks at.\<close>

definition callIdentifier :: "node \<Rightarrow> ident option" where
  "callIdentifier fn =
     (case fn of
        SelectorExpr x sel \<Rightarrow> Some sel
      | Ident i \<Rightarrow> Some i
      | _ \<Rightarrow> None)"

definition ginkgoItVisit ::
  "pass \<Rightarrow> node option \<Rightarrow> callExpr option \<Rightarrow> bool outcome \<times> callExpr option" where
  "ginkgoItVisit p descendantNode matching =
     (case descendantNode of
        Some (CallExpr fn args) \<Rightarrow>
          (case callIdentifier fn of
             None \<Rightarrow> (Returned True, matching)
           | Some ci \<Rightarrow>
               if identName ci = ''It''
               then (case isGinkgoIdentifier p ci of
                       Panicked e \<Rightarrow> (Panicked e, matching)
                     | Returned True \<Rightarrow> (Returned False, Some (fn, args))
                     | Returned False \<Rightarrow> (Returned True, matching))
               else (Returned True, matching))
      | _ \<Rightarrow> (Returned True, matching))"

definition findGinkgoItCalls :: "pass \<Rightarrow> node option \<Rightarrow> callExpr option outcome" where
  "findGinkgoItCalls p rootNode =
     (case rootNode of
        None \<Rightarrow> Panicked NilDereference
      | Some root \<Rightarrow>
          (case inspect (ginkgoItVisit p) root None of
             (Panicked e, matching) \<Rightarrow> Panicked e
           | (Returned u, matching) \<Rightarrow> Returned matching))"

text \<open>\<^verbatim>\<open>runCall.Args[1]\<close> panics when the call has fewer than two arguments.\<close>

definition getSubtestClosure :: "callExpr \<Rightarrow> funcLit option outcome" where
  "getSubtestClosure runCall =
     (case runCall of (fn, args) \<Rightarrow>
        if length args \<le> 1 then Panicked (IndexOutOfRange 1 (length args))
        else (case args ! 1 of
                FuncLit ty body \<Rightarrow> Returned (Some (ty, body))
              | _ \<Rightarrow> Returned None))"

definition isParallelFunctionClosure :: "pass \<Rightarrow> funcLit \<Rightarrow> pos option outcome" where
  "isParallelFunctionClosure p closure =
     (case closure of (ty, body) \<Rightarrow>
        (case findTestingTCalls p (Some body) ''Parallel'' of
           Panicked e \<Rightarrow> Panicked e
         | Returned None \<Rightarrow> Returned None
         | Returned (Some (fn, args)) \<Rightarrow> Returned (Some (pos (CallExpr fn args)))))"

definition checkAndReportLoopIdentifierObject ::
  "pass \<Rightarrow> object option list \<Rightarrow> node option \<Rightarrow> string \<Rightarrow> diagnostic list
     \<Rightarrow> bool outcome \<times> diagnostic list" where
  "checkAndReportLoopIdentifierObject p loopVarsIdentifiersObjects n message ds =
     (case n of
        Some (Ident identifier) \<Rightarrow>
          if list_ex (\<lambda>loopVarObject. objectOf p (Some identifier) = loopVarObject)
               loopVarsIdentifiersObjects
          then (Returned False,
                Reportf (identPos identifier) message
                  [identName identifier, identName identifier] ds)
          else (Returned True, ds)
      | _ \<Rightarrow> (Returned True, ds))"

text \<open>The callback of the walk over the closure in \<^verbatim>\<open>checkAndReportLoop\<close>.\<close>

definition subtestVisit ::
  "pass \<Rightarrow> object option list \<Rightarrow> pos \<Rightarrow> node option \<Rightarrow> diagnostic list
     \<Rightarrow> bool outcome \<times> diagnostic list" where
  "subtestVisit p loopVarsIdentifiersObjects parallelTokenPos closureDescendantNode ds =
     (case closureDescendantNode of
        None \<Rightarrow> (Returned True, ds)
      | Some d \<Rightarrow>
          if pos d \<le> parallelTokenPos then (Returned True, ds)
          else checkAndReportLoopIdentifierObject p loopVarsIdentifiersObjects (Some d)
                 goTestFailureMessageFormat ds)"

definition checkAndReportLoop :: "pass \<Rightarrow> node \<Rightarrow> diagnostic list \<Rightarrow> unit outcome \<times> diagnostic list" where
  "checkAndReportLoop p loopNode ds =
     (case getLoopNodeIdentifiersObjects p loopNode of
        Panicked e \<Rightarrow> (Panicked e, ds)
      | Returned loopVarsIdentifiersObjects \<Rightarrow>
     (case findTestingTCalls p (getLoopBody loopNode) ''Run'' of
        Panicked e \<Rightarrow> (Panicked e, ds)
      | Returned None \<Rightarrow> (Returned (), ds)
      | Returned (Some runCall) \<Rightarrow>
     (case getSubtestClosure runCall of
        Panicked e \<Rightarrow> (Panicked e, ds)
      | Returned None \<Rightarrow> (Returned (), ds)
      | Returned (Some closure) \<Rightarrow>
     (case isParallelFunctionClosure p closure of
        Panicked e \<Rightarrow> (Panicked e, ds)
      | Returned None \<Rightarrow> (Returned (), ds)
      | Returned (Some parallelTokenPos) \<Rightarrow>
          inspect (subtestVisit p loopVarsIdentifiersObjects parallelTokenPos)
            (FuncLit (fst closure) (snd closure)) ds))))"

definition checkAndReportLoopGinkgo :: "pass \<Rightarrow> node \<Rightarrow> diagnostic list \<Rightarrow> unit outcome \<times> diagnostic list" where
  "checkAndReportLoopGinkgo p loopNode ds =
     (case getLoopNodeIdentifiersObjects p loopNode of
        Panicked e \<Rightarrow> (Panicked e, ds)
      | Returned loopVarsIdentifiersObjects \<Rightarrow>
     (case findGinkgoItCalls p (getLoopBody loopNode) of
        Panicked e \<Rightarrow> (Panicked e, ds)
      | Returned None \<Rightarrow> (Returned (), ds)
      | Returned (Some ginkgoItCall) \<Rightarrow>
     (case getSubtestClosure ginkgoItCall of
        Panicked e \<Rightarrow> (Panicked e, ds)
      | Returned None \<Rightarrow> (Returned (), ds)
      | Returned (Some closure) \<Rightarrow>
          inspect (\<lambda>closureDescendantNode.
                     checkAndReportLoopIdentifierObject p loopVarsIdentifiersObjects
                       closureDescendantNode ginkgoFailureMessageFormat)
            (FuncLit (fst closure) (snd closure)) ds)))"

text \<open>
  The function that \<^verbatim>\<open>findIgnoredTests\<close> runs on every loop: both checks, under a
  deferred \<^verbatim>\<open>recover\<close> that reports the panic at the position of the loop.
\<close>

definition checkBoth :: "pass \<Rightarrow> node \<Rightarrow> diagnostic list \<Rightarrow> unit outcome \<times> diagnostic list" where
  "checkBoth p loopNode ds =
     (case checkAndReportLoop p loopNode ds of
        (Panicked e, ds1) \<Rightarrow> (Panicked e, ds1)
      | (Returned u, ds1) \<Rightarrow> checkAndReportLoopGinkgo p loopNode ds1)"

definition loopCallback :: "pass \<Rightarrow> node \<Rightarrow> diagnostic list \<Rightarrow> unit outcome \<times> diagnostic list" where
  "loopCallback p loopNode ds =
     (case checkBoth p loopNode ds of
        (Panicked r, ds1) \<Rightarrow>
          (Returned (), Reportf (pos loopNode) panicMessageFormat [faultText r] ds1)
      | (Returned u, ds1) \<Rightarrow> (Returned u, ds1))"

text \<open>
  \<^verbatim>\<open>Inspector.Preorder\<close> with the two loop types: the callback runs on every loop of
  the files, in depth-first order; a panic that left the callback would end the run.
\<close>

definition isLoop :: "node \<Rightarrow> bool" where
  "isLoop n = (case n of ForStmt p init cond post body \<Rightarrow> True
               | RangeStmt p key val x body \<Rightarrow> True | _ \<Rightarrow> False)"

fun forEach :: "(node \<Rightarrow> diagnostic list \<Rightarrow> unit outcome \<times> diagnostic list) \<Rightarrow> node list
    \<Rightarrow> diagnostic list \<Rightarrow> unit outcome \<times> diagnostic list" where
  "forEach f [] ds = (Returned (), ds)"
| "forEach f (n # ns) ds =
     (case f n ds of
        (Panicked e, ds1) \<Rightarrow> (Panicked e, ds1)
      | (Returned u, ds1) \<Rightarrow> forEach f ns ds1)"

definition findIgnoredTests :: "pass \<Rightarrow> node list \<Rightarrow> diagnostic list \<Rightarrow> unit outcome \<times> diagnostic list" where
  "findIgnoredTests p files ds =
     forEach (loopCallback p) (filter isLoop (concat (map preorder files))) ds"

section \<open>Reading a walk off the tree\<close>

text \<open>
  The walks are characterised by lists computed from the tree: \<open>identifiers n\<close> is every
  identifier node below \<open>n\<close> in document order, and \<open>outermost h n\<close> is, in document
  order, every node below \<open>n\<close> that satisfies \<open>h\<close> and does not lie inside another node
  that satisfies \<open>h\<close>.
\<close>

declare inspect.simps [simp del] preorder.simps [simp del]

function outermost :: "(node \<Rightarrow> bool) \<Rightarrow> node \<Rightarrow> node list" where
  "outermost h n = (if h n then [n] else concat (map (outermost h) (children n)))"
  by pat_completeness auto
termination
  by (relation "measure (\<lambda>(h, n). size n)") (auto simp: children_size)

declare outermost.simps [simp del]

definition identifiers :: "node \<Rightarrow> ident list" where
  "identifiers n = concat (map (\<lambda>x. case x of Ident i \<Rightarrow> [i] | _ \<Rightarrow> []) (preorder n))"

lemma collect_walk:
  fixes f :: "node option \<Rightarrow> 'd list \<Rightarrow> bool outcome \<times> 'd list"
  assumes nil: "\<And>s. f None s = (Returned True, s)"
    and vis: "\<And>n s. f (Some n) s = (Returned (emit n = [] \<or> children n \<noteq> []), s @ emit n)"
  shows "inspect f n s = (Returned (), s @ concat (map emit (preorder n)))"
    and "walkList f ns s = (Returned (), s @ concat (map emit (concat (map preorder ns))))"
  using assms
proof (induction f n s and f ns s rule: inspect_walkList.induct)
  case (1 f n s)
  show ?case
  proof (cases "emit n = [] \<or> children n \<noteq> []")
    case True
    have "walkList f (children n) (s @ emit n)
        = (Returned (), (s @ emit n) @ concat (map emit (concat (map preorder (children n)))))"
      using "1.IH" [of "Returned True" "s @ emit n" True] "1.prems" True
      by simp
    then show ?thesis
      using "1.prems" True by (simp add: inspect.simps [of f n s] preorder.simps [of n])
  next
    case False
    then show ?thesis
      using "1.prems" by (simp add: inspect.simps [of f n s] preorder.simps [of n])
  qed
next
  case (2 f s)
  then show ?case by simp
next
  case (3 f n ns s)
  have a: "inspect f n s = (Returned (), s @ concat (map emit (preorder n)))"
    using "3.IH"(1) "3.prems" by simp
  have "walkList f ns (s @ concat (map emit (preorder n)))
      = (Returned (), (s @ concat (map emit (preorder n))) @ concat (map emit (concat (map preorder ns))))"
    using "3.IH"(2) [OF a [symmetric]] "3.prems" by simp
  then show ?case using a by simp
qed


lemma find_walk_result:
  fixes g :: "node option \<Rightarrow> 's \<Rightarrow> bool outcome \<times> 's"
  assumes nil: "\<And>s. g None s = (Returned True, s)"
    and hitc: "\<And>n s. hit n \<Longrightarrow> g (Some n) s = (Returned False, cap n)"
    and miss: "\<And>n s b t. \<not> hit n \<Longrightarrow> g (Some n) s = (Returned b, t) \<Longrightarrow> b \<and> t = s"
  shows "inspect g n s = (Returned u, s') \<Longrightarrow> s' = foldl (\<lambda>a x. cap x) s (outermost hit n)"
    and "walkList g ns s = (Returned u, s')
         \<Longrightarrow> s' = foldl (\<lambda>a x. cap x) s (concat (map (outermost hit) ns))"
  using assms
proof (induction g n s and g ns s arbitrary: u s' and u s' rule: inspect_walkList.induct)
  case (1 g n s)
  show ?case
  proof (cases "hit n")
    case True
    then show ?thesis
      using "1.prems" by (simp add: inspect.simps [of g n s] outermost.simps [of hit n])
  next
    case False
    from "1.prems"(1) obtain b t where gb: "g (Some n) s = (Returned b, t)"
      by (auto simp: inspect.simps [of g n s] split: prod.splits outcome.splits)
    with False "1.prems"(4) have bt: "b" "t = s" by blast+
    from "1.prems"(1) gb bt obtain v t2 where w: "walkList g (children n) s = (Returned v, t2)"
      by (auto simp: inspect.simps [of g n s] split: prod.splits outcome.splits)
    have "t2 = foldl (\<lambda>a x. cap x) s (concat (map (outermost hit) (children n)))"
    proof (rule "1.IH" [of "Returned True" s True v t2])
      show "(Returned True, s) = g (Some n) s" using gb bt by simp
      show "walkList g (children n) s = (Returned v, t2)" by (rule w)
    qed (use "1.prems"(2-4) in blast)+
    moreover have "s' = t2"
      using "1.prems"(1,2) gb bt w by (simp add: inspect.simps [of g n s])
    ultimately show ?thesis
      using False by (simp add: outermost.simps [of hit n])
  qed
next
  case (2 g s)
  then show ?case by simp
next
  case (3 g n ns s)
  from "3.prems"(1) obtain v t where i: "inspect g n s = (Returned v, t)"
    by (auto split: prod.splits outcome.splits)
  have t: "t = foldl (\<lambda>a x. cap x) s (outermost hit n)"
    by (rule "3.IH"(1) [OF i]) (use "3.prems"(2-4) in blast)+
  have w: "walkList g ns t = (Returned u, s')"
    using "3.prems"(1) i by simp
  have "s' = foldl (\<lambda>a x. cap x) t (concat (map (outermost hit) ns))"
    by (rule "3.IH"(2) [OF i [symmetric] refl w]) (use "3.prems"(2-4) in blast)+
  then show ?case using t by simp
qed

lemma preorder_child: "c \<in> set (children n) \<Longrightarrow> x \<in> set (preorder c) \<Longrightarrow> x \<in> set (preorder n)"
  by (auto simp: preorder.simps [of n])

lemma preorder_self: "n \<in> set (preorder n)"
  by (simp add: preorder.simps [of n])

lemma find_walk_returns:
  fixes g :: "node option \<Rightarrow> 's \<Rightarrow> bool outcome \<times> 's"
  assumes nil: "\<And>s. g None s = (Returned True, s)"
  shows "(\<And>x s. x \<in> set (preorder n) \<Longrightarrow> \<exists>b t. g (Some x) s = (Returned b, t))
         \<Longrightarrow> \<exists>t. inspect g n s = (Returned (), t)"
    and "(\<And>x s. x \<in> set (concat (map preorder ns)) \<Longrightarrow> \<exists>b t. g (Some x) s = (Returned b, t))
         \<Longrightarrow> \<exists>t. walkList g ns s = (Returned (), t)"
  using assms
proof (induction g n s and g ns s rule: inspect_walkList.induct)
  case (1 g n s)
  from "1.prems"(1) [OF preorder_self, of s] obtain b t where gb: "g (Some n) s = (Returned b, t)"
    by blast
  show ?case
  proof (cases b)
    case True
    have "\<exists>t2. walkList g (children n) t = (Returned (), t2)"
    proof (rule "1.IH" [of "Returned True" t True])
      show "(Returned True, t) = g (Some n) s" using gb True by simp
      show "\<And>x s. x \<in> set (concat (map preorder (children n)))
           \<Longrightarrow> \<exists>b t. g (Some x) s = (Returned b, t)"
        using "1.prems"(1) preorder_child by (fastforce simp: )
    qed (use "1.prems"(2) in simp_all)
    then show ?thesis
      using gb True "1.prems"(2) by (auto simp: inspect.simps [of g n s])
  next
    case False
    then show ?thesis using gb by (simp add: inspect.simps [of g n s])
  qed
next
  case (2 g s)
  then show ?case by simp
next
  case (3 g n ns s)
  have "\<exists>t. inspect g n s = (Returned (), t)"
    using "3.IH"(1) "3.prems" by simp
  then obtain t where i: "inspect g n s = (Returned (), t)" by blast
  have "\<exists>t2. walkList g ns t = (Returned (), t2)"
    using "3.IH"(2) [OF i [symmetric] refl] "3.prems" by simp
  then show ?case using i by simp
qed

section \<open>Loop-variable extraction on counting loops\<close>

text \<open>
  The initializer shapes the extractor does not recognize: no initializer, an
  initializer that is not an assignment, or an assignment none of whose left-hand
  sides is an identifier or a selector.
\<close>

definition isIdentOrSelector :: "node \<Rightarrow> bool" where
  "isIdentOrSelector n = (case n of Ident i \<Rightarrow> True | SelectorExpr x sel \<Rightarrow> True | _ \<Rightarrow> False)"

definition unrecognizedInit :: "node option \<Rightarrow> bool" where
  "unrecognizedInit init =
     (case init of
        Some (AssignStmt l ls rs) \<Rightarrow> list_all (\<lambda>e. \<not> isIdentOrSelector e) (l # ls)
      | _ \<Rightarrow> True)"

lemma exprToIdent_None_iff: "exprToIdent (Some e) = None \<longleftrightarrow> \<not> isIdentOrSelector e"
  by (cases e) (simp_all add: exprToIdent_def isIdentOrSelector_def)

lemma Reject_all:
  "list_all (\<lambda>e. \<not> isIdentOrSelector e) es \<Longrightarrow>
   Reject (map exprToIdent (map Some es)) (\<lambda>ident. ident = None) = []"
  by (induction es) (simp_all add: Reject_def exprToIdent_None_iff)

text \<open>
  Claim C9. On a counting loop the extractor always returns and never panics, whatever
  the initializer is; when the initializer is absent or of an unrecognized shape, the
  list of loop variables, and the list of their objects, is empty.
\<close>

theorem C9_for_extractor_total:
  "(\<exists>idents. getLoopVarsIdentifiers (ForStmt p init cond post body) = Returned idents
       \<and> getLoopNodeIdentifiersObjects pa (ForStmt p init cond post body)
           = Returned (map (objectOf pa) idents))
   \<and> (unrecognizedInit init \<longrightarrow>
        getLoopVarsIdentifiers (ForStmt p init cond post body) = Returned []
        \<and> getLoopNodeIdentifiersObjects pa (ForStmt p init cond post body) = Returned [])"
proof -
  have total: "\<exists>idents. getLoopVarsIdentifiers (ForStmt p init cond post body) = Returned idents"
    by (simp add: getLoopVarsIdentifiers_def split: option.splits node.splits)
  have empty: "getLoopVarsIdentifiers (ForStmt p init cond post body) = Returned []"
    if "unrecognizedInit init"
  proof (cases init)
    case None
    then show ?thesis by (simp add: getLoopVarsIdentifiers_def)
  next
    case (Some st)
    show ?thesis
    proof (cases st)
      case (AssignStmt l ls rs)
      with Some that have "list_all (\<lambda>e. \<not> isIdentOrSelector e) (l # ls)"
        by (simp add: unrecognizedInit_def)
      from Reject_all [OF this] Some AssignStmt show ?thesis
        by (simp add: getLoopVarsIdentifiers_def)
    qed (simp_all add: Some getLoopVarsIdentifiers_def)
  qed
  show ?thesis
    using total empty by (auto simp: getLoopNodeIdentifiersObjects_def)
qed

theorem C9_for_extractor_total_witness:
  "unrecognizedInit (Some (AssignStmt (OtherNode 5 []) [] [OtherNode 9 []]))
   \<and> getLoopVarsIdentifiers
       (ForStmt 1 (Some (AssignStmt (OtherNode 5 []) [] [OtherNode 9 []])) None None
          (BlockStmt 12 [])) = Returned []"
  using C9_for_extractor_total
    [of 1 "Some (AssignStmt (OtherNode 5 []) [] [OtherNode 9 []])" None None "BlockStmt 12 []"]
  by (simp add: unrecognizedInit_def isIdentOrSelector_def)

text \<open>
  What the callbacks of the two finders decide on one node, read off the callbacks
  themselves: whether the node is taken as the match, and whether looking at it panics.
\<close>

definition asCall :: "node \<Rightarrow> callExpr option" where
  "asCall n = (case n of CallExpr fn args \<Rightarrow> Some (fn, args) | _ \<Rightarrow> None)"



definition isGinkgoItCall :: "pass \<Rightarrow> node \<Rightarrow> bool" where
  "isGinkgoItCall p n = (fst (ginkgoItVisit p (Some n) None) = Returned False)"

definition ginkgoItFaults :: "pass \<Rightarrow> node \<Rightarrow> bool" where
  "ginkgoItFaults p n =
     (case fst (ginkgoItVisit p (Some n) None) of Panicked e \<Rightarrow> True | _ \<Rightarrow> False)"

text \<open>
  \<open>lastOutermost h root\<close> is the last, in document order, of the nodes that satisfy \<open>h\<close>
  and do not lie inside another such node; \<open>firstMatch h root\<close> is the first node in
  document order that satisfies \<open>h\<close>.
\<close>

definition lastOutermost :: "(node \<Rightarrow> bool) \<Rightarrow> node \<Rightarrow> callExpr option" where
  "lastOutermost h root = (case outermost h root of [] \<Rightarrow> None | m # ms \<Rightarrow> asCall (last (m # ms)))"

definition firstMatch :: "(node \<Rightarrow> bool) \<Rightarrow> node \<Rightarrow> callExpr option" where
  "firstMatch h root = (case filter h (preorder root) of [] \<Rightarrow> None | m # ms \<Rightarrow> asCall m)"



lemma ginkgoItVisit_nil: "ginkgoItVisit p None s = (Returned True, s)"
  by (simp add: ginkgoItVisit_def)

lemma ginkgoItVisit_cases:
  "ginkgoItVisit p (Some n) s =
     (if isGinkgoItCall p n then (Returned False, asCall n)
      else if ginkgoItFaults p n then (Panicked NilDereference, s)
      else (Returned True, s))"
  by (simp add: ginkgoItVisit_def isGinkgoItCall_def ginkgoItFaults_def asCall_def
      isGinkgoIdentifier_def
      split: node.splits option.splits outcome.splits bool.splits)

lemma foldl_last: "foldl (\<lambda>a x. c x) s xs = (case xs of [] \<Rightarrow> s | m # ms \<Rightarrow> c (last (m # ms)))"
  by (induction xs arbitrary: s) (auto split: list.splits)




lemma findGinkgoItCalls_result:
  assumes "findGinkgoItCalls p (Some root) = Returned r"
  shows "r = lastOutermost (isGinkgoItCall p) root"
proof -
  from assms obtain u where i: "inspect (ginkgoItVisit p) root None = (Returned u, r)"
    by (auto simp: findGinkgoItCalls_def split: prod.splits outcome.splits)
  have "r = foldl (\<lambda>a x. asCall x) None (outermost (isGinkgoItCall p) root)"
    by (rule find_walk_result(1) [OF _ _ _ i])
       (simp_all add: ginkgoItVisit_nil ginkgoItVisit_cases split: if_splits)
  then show ?thesis by (simp add: foldl_last lastOutermost_def)
qed

lemma findGinkgoItCalls_returns:
  assumes "list_all (\<lambda>x. \<not> ginkgoItFaults p x) (preorder root)"
  shows "findGinkgoItCalls p (Some root) = Returned (lastOutermost (isGinkgoItCall p) root)"
proof -
  have "\<exists>t. inspect (ginkgoItVisit p) root None = (Returned (), t)"
    by (rule find_walk_returns(1))
       (use assms in \<open>auto simp: ginkgoItVisit_nil ginkgoItVisit_cases list_all_iff\<close>)
  then obtain t where "inspect (ginkgoItVisit p) root None = (Returned (), t)" by blast
  then have r: "findGinkgoItCalls p (Some root) = Returned t"
    by (simp add: findGinkgoItCalls_def)
  from findGinkgoItCalls_result [OF r] r show ?thesis by simp
qed

section \<open>Example inputs\<close>

text \<open>
  A loop body with two subtests:
  \<^verbatim>\<open>{ t.Run("a", func(t *testing.T) {}); t.Run("b", func(t *testing.T) {}) }\<close>
\<close>

definition exTwoRunsPass :: pass where
  "exTwoRunsPass = \<lparr> objects = map_of [(Id 30 ''t'', 1), (Id 70 ''t'', 1)],
       typeString = map_of [(1, ''*testing.T'')],
       pkgPath = map_of [(1, ''example.com/pkg'')] \<rparr>"

definition exRunA :: callExpr where
  "exRunA = (SelectorExpr (Ident (Id 30 ''t'')) (Id 32 ''Run''),
       [OtherNode 36 [], FuncLit (OtherNode 41 []) (BlockStmt 60 [])])"

definition exRunB :: callExpr where
  "exRunB = (SelectorExpr (Ident (Id 70 ''t'')) (Id 72 ''Run''),
       [OtherNode 76 [], FuncLit (OtherNode 81 []) (BlockStmt 99 [])])"

definition exTwoRuns :: node where
  "exTwoRuns = BlockStmt 25
     [OtherNode 30 [CallExpr (fst exRunA) (snd exRunA)],
      OtherNode 70 [CallExpr (fst exRunB) (snd exRunB)]]"

lemma outermost_subset: "x \<in> set (outermost h n) \<Longrightarrow> x \<in> set (preorder n) \<and> h x"
proof (induction n rule: preorder.induct)
  case (1 n)
  show ?case
  proof (cases "h n")
    case True
    with "1.prems" show ?thesis by (simp add: outermost.simps [of h n] preorder.simps [of n])
  next
    case False
    with "1.prems" obtain c where "c \<in> set (children n)" "x \<in> set (outermost h c)"
      by (auto simp: outermost.simps [of h n])
    with "1.IH" show ?thesis by (auto simp: preorder.simps [of n])
  qed
qed

lemma outermost_nonempty: "x \<in> set (preorder n) \<Longrightarrow> h x \<Longrightarrow> outermost h n \<noteq> []"
proof (induction n rule: preorder.induct)
  case (1 n)
  show ?case
  proof (cases "h n")
    case True
    then show ?thesis by (simp add: outermost.simps [of h n])
  next
    case False
    with "1.prems" obtain c where "c \<in> set (children n)" "x \<in> set (preorder c)"
      by (auto simp: preorder.simps [of n])
    with "1.IH" "1.prems"(2) False show ?thesis by (auto simp: outermost.simps [of h n])
  qed
qed

lemma concat_hd:
  assumes "\<And>c. c \<in> set cs \<Longrightarrow> F c = [] \<Longrightarrow> G c = []"
    and "\<And>c. c \<in> set cs \<Longrightarrow> F c \<noteq> [] \<Longrightarrow> G c \<noteq> [] \<and> hd (G c) = hd (F c)"
    and "concat (map F cs) \<noteq> []"
  shows "concat (map G cs) \<noteq> [] \<and> hd (concat (map G cs)) = hd (concat (map F cs))"
  using assms
proof (induction cs)
  case Nil
  then show ?case by simp
next
  case (Cons c cs)
  show ?case
  proof (cases "F c = []")
    case True
    then have "G c = []" using Cons.prems(1) by simp
    moreover have "concat (map G cs) \<noteq> [] \<and> hd (concat (map G cs)) = hd (concat (map F cs))"
      using Cons.IH Cons.prems True by simp
    ultimately show ?thesis using True by simp
  next
    case False
    then have "G c \<noteq> [] \<and> hd (G c) = hd (F c)" using Cons.prems(2) by simp
    then show ?thesis using False by simp
  qed
qed

lemma outermost_hd:
  "filter h (preorder n) \<noteq> [] \<Longrightarrow>
   outermost h n \<noteq> [] \<and> hd (outermost h n) = hd (filter h (preorder n))"
proof (induction n rule: preorder.induct)
  case (1 n)
  show ?case
  proof (cases "h n")
    case True
    then show ?thesis by (simp add: outermost.simps [of h n] preorder.simps [of n])
  next
    case False
    have ne: "concat (map (\<lambda>c. filter h (preorder c)) (children n)) \<noteq> []"
      using "1.prems" False by (simp add: preorder.simps [of n] filter_concat comp_def)
    have "concat (map (outermost h) (children n)) \<noteq> [] \<and>
          hd (concat (map (outermost h) (children n)))
            = hd (concat (map (\<lambda>c. filter h (preorder c)) (children n)))"
    proof (rule concat_hd [OF _ _ ne])
      fix c assume "c \<in> set (children n)" "filter h (preorder c) = []"
      then show "outermost h c = []"
        using outermost_subset [of _ h c] by (cases "outermost h c") (auto simp: filter_empty_conv)
    next
      fix c assume "c \<in> set (children n)" "filter h (preorder c) \<noteq> []"
      then show "outermost h c \<noteq> [] \<and> hd (outermost h c) = hd (filter h (preorder c))"
        using "1.IH" by simp
    qed
    then show ?thesis
      using False by (simp add: outermost.simps [of h n] preorder.simps [of n] filter_concat comp_def)
  qed
qed

lemma single_outermost_is_first:
  assumes "outermost h root = [x]"
  shows "lastOutermost h root = firstMatch h root"
proof -
  have "x \<in> set (preorder root) \<and> h x"
    using outermost_subset [of x h root] assms by simp
  then have ne: "filter h (preorder root) \<noteq> []"
    by (auto simp: filter_empty_conv)
  from outermost_hd [OF ne] assms have "hd (filter h (preorder root)) = x" by simp
  with ne assms show ?thesis
    by (cases "filter h (preorder root)") (simp_all add: lastOutermost_def firstMatch_def)
qed

lemma emit_concat:
  "concat (map (\<lambda>n. case n of Ident i \<Rightarrow> if c i then [mk i] else [] | _ \<Rightarrow> []) ns)
   = map mk (filter c (concat (map (\<lambda>x. case x of Ident i \<Rightarrow> [i] | _ \<Rightarrow> []) ns)))"
  by (induction ns) (auto split: node.splits)

lemma ginkgo_walk:
  "inspect (\<lambda>n. checkAndReportLoopIdentifierObject p objs n fmt) root ds
   = (Returned (), ds @ map (\<lambda>i. Diagnostic (identPos i) (sprintf fmt [identName i, identName i]))
        (filter (\<lambda>i. objectOf p (Some i) \<in> set objs) (identifiers root)))"
proof -
  let ?emit = "\<lambda>n. case n of
      Ident i \<Rightarrow> if objectOf p (Some i) \<in> set objs
                 then [Diagnostic (identPos i) (sprintf fmt [identName i, identName i])] else []
    | _ \<Rightarrow> []"
  have "inspect (\<lambda>n. checkAndReportLoopIdentifierObject p objs n fmt) root ds
        = (Returned (), ds @ concat (map ?emit (preorder root)))"
    by (rule collect_walk(1))
       (auto simp: checkAndReportLoopIdentifierObject_def Reportf_def list_ex_iff
          split: node.splits)
  then show ?thesis by (simp add: emit_concat identifiers_def)
qed



lemma ginkgo_message:
  "sprintf ginkgoFailureMessageFormat [n, n] =
     ''loop variable `'' @ n @ ''` used directly inside ginkgo It closure. This could lead to tests not running as expected. Try aliasing `'' @ n @ ''` to a variable outside the closure''"
  by (simp add: ginkgoFailureMessageFormat_def)

lemma panic_message:
  "sprintf panicMessageFormat [t] = ''panic: '' @ t @ [CHR 0x0A]"
  by (simp add: panicMessageFormat_def)

lemma findTestingTCalls_nil: "findTestingTCalls p None m = Panicked NilDereference"
  by (simp add: findTestingTCalls_def)

lemma findGinkgoItCalls_nil: "findGinkgoItCalls p None = Panicked NilDereference"
  by (simp add: findGinkgoItCalls_def)

lemma loop_has_variables:
  "getLoopBody loopNode = Some b \<Longrightarrow> \<exists>idents. getLoopVarsIdentifiers loopNode = Returned idents"
  by (cases loopNode)
     (simp_all add: getLoopBody_def getLoopVarsIdentifiers_def split: option.splits node.splits)

lemma loop_has_objects:
  "getLoopBody loopNode = Some b \<Longrightarrow> \<exists>objs. getLoopNodeIdentifiersObjects p loopNode = Returned objs"
  using loop_has_variables [of loopNode b] by (auto simp: getLoopNodeIdentifiersObjects_def)

lemma getSubtestClosure_lit:
  "1 < length args \<Longrightarrow> args ! 1 = FuncLit ty body
   \<Longrightarrow> getSubtestClosure (fn, args) = Returned (Some (ty, body))"
  by (simp add: getSubtestClosure_def)

lemma getSubtestClosure_short:
  "length args \<le> 1 \<Longrightarrow> getSubtestClosure (fn, args) = Panicked (IndexOutOfRange 1 (length args))"
  by (simp add: getSubtestClosure_def)


section \<open>The Subtest check\<close>


section \<open>The Spec check\<close>

text \<open>
  Claim C2. Take a loop in whose body the finder has matched an \<^verbatim>\<open>It\<close> call whose second
  argument is a function literal. The Spec check returns and adds, in document order,
  exactly one diagnostic for each identifier anywhere in the literal whose object is one
  of the loop's objects, wherever the identifier lies, at the identifier's position and
  with its name in both slots of the message.
\<close>

theorem C2_spec_diagnostics:
  assumes it: "findGinkgoItCalls p (getLoopBody loopNode) = Returned (Some (fn, args))"
    and two: "1 < length args"
    and lit: "args ! 1 = FuncLit ty body"
  shows "\<exists>objs. getLoopNodeIdentifiersObjects p loopNode = Returned objs
           \<and> checkAndReportLoopGinkgo p loopNode ds =
               (Returned (),
                ds @ map (\<lambda>i. Diagnostic (identPos i)
                            (''loop variable `'' @ identName i @ ''` used directly inside ginkgo It closure. This could lead to tests not running as expected. Try aliasing `'' @ identName i @ ''` to a variable outside the closure''))
                      (filter (\<lambda>i. objectOf p (Some i) \<in> set objs)
                         (identifiers (FuncLit ty body))))"
proof -
  from it obtain b where b: "getLoopBody loopNode = Some b"
    by (cases "getLoopBody loopNode") (simp_all add: findGinkgoItCalls_nil)
  from loop_has_objects [OF b] obtain objs
    where objs: "getLoopNodeIdentifiersObjects p loopNode = Returned objs" by blast
  note clo = getSubtestClosure_lit [OF two lit, of fn]
  show ?thesis
    using objs it clo by (simp add: checkAndReportLoopGinkgo_def ginkgo_walk ginkgo_message)
qed

section \<open>A \<^verbatim>\<open>Run\<close> call without a second argument\<close>

text \<open>
  Claim C3, as the code has it. When the matched \<^verbatim>\<open>Run\<close> call has fewer than two
  arguments, reading its second argument panics with an index out of range: the Subtest
  check adds no diagnostic of its own and the panic leaves it; the Spec check, which
  would come next, is not run; the recovery around the loop adds exactly one diagnostic,
  at the loop's position, with the text of the panic, and the callback returns.
\<close>

theorem C3_short_run_call_faults:
  assumes run: "findTestingTCalls p (getLoopBody loopNode) ''Run'' = Returned (Some (fn, args))"
    and short: "length args \<le> 1"
  shows "checkAndReportLoop p loopNode ds = (Panicked (IndexOutOfRange 1 (length args)), ds)
       \<and> checkBoth p loopNode ds = (Panicked (IndexOutOfRange 1 (length args)), ds)
       \<and> loopCallback p loopNode ds =
           (Returned (),
            ds @ [Diagnostic (pos loopNode)
                    (''panic: runtime error: index out of range [1] with length ''
                       @ showNat (length args) @ [CHR 0x0A])])"
proof -
  from run obtain b where b: "getLoopBody loopNode = Some b"
    by (cases "getLoopBody loopNode") (simp_all add: findTestingTCalls_nil)
  from loop_has_objects [OF b] obtain objs
    where objs: "getLoopNodeIdentifiersObjects p loopNode = Returned objs" by blast
  have c: "checkAndReportLoop p loopNode ds = (Panicked (IndexOutOfRange 1 (length args)), ds)"
    using objs run getSubtestClosure_short [OF short, of fn] by (simp add: checkAndReportLoop_def)
  then show ?thesis
    by (simp add: checkBoth_def loopCallback_def Reportf_def panic_message)
qed








end
